theory Spec2Isabelle
  imports Main "HOL-Library.Word" "HOL-Library.AList"
begin

section \<open>The valve network of day16.cpp\<close>

text \<open>
  \<^verbatim>\<open>size_t\<close> is an unsigned 64-bit integer: addition and multiplication wrap around.
  A \<^verbatim>\<open>const Valve*\<close> always points at a valve owned by the network, and the network
  owns exactly one valve per label, so a pointer is modelled by the label of its valve.
  The unordered maps keyed by such pointers are association lists; their order stands for
  the (unspecified) iteration order of the map.
\<close>

type_synonym size_t = "64 word"
type_synonym label = string
type_synonym table = "(label \<times> size_t) list"

text \<open>
  \<^verbatim>\<open>struct Valve\<close>. The member \<^verbatim>\<open>label\<close> is the key under which \<^verbatim>\<open>parse\<close> stores the
  valve; \<^verbatim>\<open>routes\<close> is never written.
\<close>

record Valve =
  flowRate :: size_t
  connections :: "label list"
  distances :: table

type_synonym ValveNetwork = "(label \<times> Valve) list"

text \<open>The exceptions of the program: \<^verbatim>\<open>std::out_of_range\<close> of \<^verbatim>\<open>unordered_map::at\<close> and the
  two \<^verbatim>\<open>std::runtime_error\<close>s of \<^verbatim>\<open>calculateDistanceToOtherValves\<close>.\<close>

datatype error =
    out_of_range label
  | failed_to_insert label
  | infinite_distance label

definition UINT32_MAX :: size_t where
  "UINT32_MAX = 4294967295"

text \<open>Reading through a pointer: the members of the valve it points at.\<close>

definition flowRate_of :: "ValveNetwork \<Rightarrow> label \<Rightarrow> size_t" where
  "flowRate_of network p = (case map_of network p of Some v \<Rightarrow> flowRate v | None \<Rightarrow> 0)"

definition connections_of :: "ValveNetwork \<Rightarrow> label \<Rightarrow> label list" where
  "connections_of network p = (case map_of network p of Some v \<Rightarrow> connections v | None \<Rightarrow> [])"

definition distances_of :: "ValveNetwork \<Rightarrow> label \<Rightarrow> table" where
  "distances_of network p = (case map_of network p of Some v \<Rightarrow> distances v | None \<Rightarrow> [])"

text \<open>Pointers are compared by address; the network list enumerates the valves by
  ascending address.\<close>

definition addr :: "ValveNetwork \<Rightarrow> label \<Rightarrow> nat" where
  "addr network p = length (takeWhile (\<lambda>kv. fst kv \<noteq> p) network)"

text \<open>\<^verbatim>\<open>distances[k]\<close> and \<^verbatim>\<open>distances.at(k)\<close> read at a key that the initialisation loop
  has entered: every valve of the network has an entry from then on (see \<open>dijkstra_inv\<close>).\<close>

definition subscript :: "table \<Rightarrow> label \<Rightarrow> size_t" where
  "subscript t k = (case map_of t k of Some x \<Rightarrow> x | None \<Rightarrow> 0)"

subsection \<open>\<^verbatim>\<open>DistanceSorter\<close> and \<^verbatim>\<open>std::min_element\<close>\<close>

definition DistanceSorter :: "ValveNetwork \<Rightarrow> table \<Rightarrow> label \<Rightarrow> label \<Rightarrow> bool" where
  "DistanceSorter network t a b =
     (let da = subscript t a; db = subscript t b
      in if da = db then addr network a < addr network b else da < db)"

fun min_element_from :: "(label \<Rightarrow> label \<Rightarrow> bool) \<Rightarrow> label \<Rightarrow> label list \<Rightarrow> label" where
  "min_element_from cmp smallest [] = smallest"
| "min_element_from cmp smallest (x # xs) =
     min_element_from cmp (if cmp x smallest then x else smallest) xs"

subsection \<open>\<^verbatim>\<open>Valve::calculateDistanceToOtherValves\<close>\<close>

text \<open>The first loop: every valve gets the distance \<^verbatim>\<open>UINT32_MAX\<close> and enters \<^verbatim>\<open>Q\<close>. The
  insertion into the set \<^verbatim>\<open>Q\<close> fails for a pointer that is in it already, that is, for a
  label that the list has twice (an \<^verbatim>\<open>unordered_map\<close> has each key once).\<close>

fun init_Q :: "ValveNetwork \<Rightarrow> table \<Rightarrow> label list \<Rightarrow> error + (table \<times> label list)" where
  "init_Q [] t Q = Inr (t, Q)"
| "init_Q ((l, v) # rest) t Q =
     (let t' = AList.update l UINT32_MAX t
      in if l \<in> set Q then Inl (failed_to_insert l)
         else init_Q rest t' (Q @ [l]))"

text \<open>The inner loop over \<^verbatim>\<open>valve->connections\<close>.\<close>

fun relax :: "ValveNetwork \<Rightarrow> label list \<Rightarrow> size_t \<Rightarrow> label list \<Rightarrow> table \<Rightarrow> error + table" where
  "relax network Q distance [] t = Inr t"
| "relax network Q distance (neighbour # rest) t =
     (case map_of network neighbour of
        None \<Rightarrow> Inl (out_of_range neighbour)
      | Some _ \<Rightarrow>
          (let u = neighbour in
           if u \<in> set Q then
             (let alt = distance + 1 in
              if alt < subscript t u
              then relax network Q distance rest (AList.update u alt t)
              else relax network Q distance rest t)
           else relax network Q distance rest t))"

lemma min_element_from_in: "min_element_from cmp s xs \<in> set (s # xs)"
  by (induction xs arbitrary: s) auto

lemma length_remove1_less: "x \<in> set xs \<Longrightarrow> length (remove1 x xs) < length xs"
  by (induction xs) auto

text \<open>One pass through the body of the \<^verbatim>\<open>while (!Q.empty())\<close> loop, for a queue that is not
  empty: the queue and the table after it. The map \<^verbatim>\<open>prev\<close> is written and never read.\<close>

definition while_Q_body ::
  "ValveNetwork \<Rightarrow> label \<Rightarrow> label list \<Rightarrow> table \<Rightarrow> error + (label list \<times> table)" where
  "while_Q_body network q qs t =
     (let valve = min_element_from (DistanceSorter network t) q qs;
          Q = remove1 valve (q # qs);
          distance = subscript t valve
      in if distance = UINT32_MAX then Inl (infinite_distance valve)
         else (case relax network Q distance (connections_of network valve) t of
                 Inl e \<Rightarrow> Inl e
               | Inr t' \<Rightarrow> Inr (Q, t')))"

lemma while_Q_body_Inr:
  assumes "while_Q_body network q qs t = Inr (Q, t')"
  shows "Q = remove1 (min_element_from (DistanceSorter network t) q qs) (q # qs)"
    and "subscript t (min_element_from (DistanceSorter network t) q qs) \<noteq> UINT32_MAX"
    and "relax network Q (subscript t (min_element_from (DistanceSorter network t) q qs))
           (connections_of network (min_element_from (DistanceSorter network t) q qs)) t = Inr t'"
  using assms unfolding while_Q_body_def Let_def
  by (auto split: if_splits sum.splits simp del: remove1.simps)

text \<open>The loop.\<close>

function while_Q :: "ValveNetwork \<Rightarrow> label list \<Rightarrow> table \<Rightarrow> error + table" where
  "while_Q network [] t = Inr t"
| "while_Q network (q # qs) t =
     (case while_Q_body network q qs t of
        Inl e \<Rightarrow> Inl e
      | Inr (Q, t') \<Rightarrow> while_Q network Q t')"
  by pat_completeness auto
termination
proof (relation "measure (\<lambda>(network, Q, t). length Q)")
  show "wf (measure (\<lambda>(network, Q, t). length Q))" by simp
next
  fix network :: ValveNetwork and q :: label and qs :: "label list" and t :: table
    and x Q t'
  assume "while_Q_body network q qs t = Inr x" and "(Q, t') = x"
  then have "while_Q_body network q qs t = Inr (Q, t')" by simp
  then have "Q = remove1 (min_element_from (DistanceSorter network t) q qs) (q # qs)"
    by (rule while_Q_body_Inr)
  then have "length Q < length (q # qs)"
    using min_element_from_in [of "DistanceSorter network t" q qs]
    by (simp only: length_remove1_less)
  then show "((network, Q, t'), (network, q # qs, t)) \<in> measure (\<lambda>(network, Q, t). length Q)"
    by simp
qed

text \<open>The queue and the table after \<open>n\<close> passes through the body of the loop, or at its exit
  when it runs for fewer passes.\<close>

fun while_Q_passes ::
  "nat \<Rightarrow> ValveNetwork \<Rightarrow> label list \<Rightarrow> table \<Rightarrow> error + (label list \<times> table)" where
  "while_Q_passes 0 network Q t = Inr (Q, t)"
| "while_Q_passes (Suc n) network [] t = Inr ([], t)"
| "while_Q_passes (Suc n) network (q # qs) t =
     (case while_Q_body network q qs t of
        Inl e \<Rightarrow> Inl e
      | Inr (Q, t') \<Rightarrow> while_Q_passes n network Q t')"

definition calculateDistanceToOtherValves :: "ValveNetwork \<Rightarrow> label \<Rightarrow> error + table" where
  "calculateDistanceToOtherValves network this =
     (case init_Q network [] [] of
        Inl e \<Rightarrow> Inl e
      | Inr (t, Q) \<Rightarrow> while_Q network Q (AList.update this 0 t))"

subsection \<open>\<^verbatim>\<open>parse\<close>\<close>

text \<open>
  A line of the input names a valve, its flow rate and the valves its tunnels lead to.
  The splitting of the text of a line is not part of this development: an input file is
  the list of its lines, each already split into these three parts. A file that cannot be
  opened reads as no line at all.
\<close>

type_synonym line = "label \<times> size_t \<times> label list"

definition read_lines :: "line list \<Rightarrow> ValveNetwork" where
  "read_lines ls =
     foldl (\<lambda>valves (name, rate, destinations).
              AList.update name \<lparr>flowRate = rate, connections = destinations, distances = []\<rparr> valves)
       [] ls"

text \<open>The second loop of \<^verbatim>\<open>parse\<close>: every valve computes its distance table. The table of a
  valve depends on the labels and connections of the network only, not on the tables
  computed before it.\<close>

fun calculate_all :: "ValveNetwork \<Rightarrow> ValveNetwork \<Rightarrow> error + ValveNetwork" where
  "calculate_all network [] = Inr []"
| "calculate_all network ((l, valve) # rest) =
     (case calculateDistanceToOtherValves network l of
        Inl e \<Rightarrow> Inl e
      | Inr t \<Rightarrow>
          (case calculate_all network rest of
             Inl e \<Rightarrow> Inl e
           | Inr rest' \<Rightarrow> Inr ((l, valve\<lparr>distances := t\<rparr>) # rest')))"

definition parse :: "line list \<Rightarrow> error + ValveNetwork" where
  "parse input = (let valves = read_lines input in calculate_all valves valves)"

subsection \<open>\<^verbatim>\<open>struct State\<close>\<close>

record State =
  current :: label
  openedValves :: table
  elapsedTime :: size_t

definition totalPressureRelieved :: "ValveNetwork \<Rightarrow> State \<Rightarrow> size_t \<Rightarrow> size_t" where
  "totalPressureRelieved network state timeLimit =
     foldl (+) 0
       (map (\<lambda>kv. if snd kv \<ge> timeLimit then 0
                  else flowRate_of network (fst kv) * (timeLimit - snd kv))
          (openedValves state))"

subsection \<open>\<^verbatim>\<open>part1\<close>\<close>

text \<open>The \<^verbatim>\<open>for\<close> loop over \<^verbatim>\<open>state.current->distances\<close>: the states it appends to the deque.\<close>

definition nextStates :: "ValveNetwork \<Rightarrow> size_t \<Rightarrow> State \<Rightarrow> State list" where
  "nextStates network timeLimit state =
     map (\<lambda>(target, distance).
            \<lparr>current = target,
             openedValves = AList.update target (elapsedTime state + distance + 1) (openedValves state),
             elapsedTime = elapsedTime state + distance + 1\<rparr>)
       (filter (\<lambda>(target, distance).
                  target \<notin> fst ` set (openedValves state)
                  \<and> flowRate_of network target > 0
                  \<and> elapsedTime state < timeLimit)
          (distances_of network (current state)))"

text \<open>One pass through the body of the \<^verbatim>\<open>while\<close> loop, for the state popped from the front:
  the deque, \<^verbatim>\<open>max\<close> and \<^verbatim>\<open>maxState\<close> after it.\<close>

definition part1_body ::
  "ValveNetwork \<Rightarrow> size_t \<Rightarrow> State \<Rightarrow> State list \<times> size_t \<times> State \<Rightarrow> State list \<times> size_t \<times> State" where
  "part1_body network timeLimit state cfg =
     (case cfg of (states, mx, maxState) \<Rightarrow>
        (let new = nextStates network timeLimit state;
             addedAnyStates = (new \<noteq> [])
         in if \<not> addedAnyStates then
              (let finalPressure = totalPressureRelieved network state timeLimit
               in if finalPressure > mx then (states, finalPressure, state)
                  else (states, mx, maxState))
            else (states @ new, mx, maxState)))"

text \<open>The loop ends: a new state has opened one valve more than the state it comes from,
  and a state has no more successors than its valve's table has entries.\<close>

definition table_bound :: "ValveNetwork \<Rightarrow> nat" where
  "table_bound network = sum_list (map (\<lambda>kv. length (distances (snd kv))) network)"

definition unopened :: "ValveNetwork \<Rightarrow> State \<Rightarrow> nat" where
  "unopened network state = card (fst ` set network - fst ` set (openedValves state))"

definition weight :: "ValveNetwork \<Rightarrow> State \<Rightarrow> nat" where
  "weight network state = Suc (table_bound network) ^ unopened network state"

lemma distances_of_bound: "length (distances_of network p) \<le> table_bound network"
proof (induction network)
  case Nil
  show ?case by (simp add: distances_of_def table_bound_def)
next
  case (Cons kv network)
  then show ?case by (cases kv) (auto simp: distances_of_def table_bound_def)
qed

lemma length_nextStates: "length (nextStates network T s) \<le> table_bound network"
proof -
  have "length (nextStates network T s) \<le> length (distances_of network (current s))"
    by (simp add: nextStates_def)
  then show ?thesis using distances_of_bound [of network "current s"] by linarith
qed

lemma flowRate_of_pos_key: "0 < flowRate_of network p \<Longrightarrow> p \<in> fst ` set network"
  by (auto simp: flowRate_of_def split: option.splits dest: map_of_SomeD intro: rev_image_eqI)

lemma nextStates_unopened:
  assumes "s' \<in> set (nextStates network T s)"
  shows "unopened network s' < unopened network s"
proof -
  from assms obtain target distance where
    new: "target \<notin> fst ` set (openedValves s)" "0 < flowRate_of network target"
    and s': "openedValves s' = AList.update target (elapsedTime s + distance + 1) (openedValves s)"
    by (auto simp: nextStates_def)
  have key: "target \<in> fst ` set network" using new(2) by (rule flowRate_of_pos_key)
  have "fst ` set network - fst ` set (openedValves s') \<subset> fst ` set network - fst ` set (openedValves s)"
    using new(1) key by (auto simp: s' dom_update)
  then show ?thesis unfolding unopened_def by (intro psubset_card_mono) auto
qed

lemma sum_list_bound: "(\<And>x. x \<in> set xs \<Longrightarrow> f x \<le> (c::nat)) \<Longrightarrow> sum_list (map f xs) \<le> length xs * c"
  by (induction xs) (auto intro: add_mono)

lemma weight_nextStates: "sum_list (map (weight network) (nextStates network T s)) < weight network s"
proof (cases "nextStates network T s = []")
  case True
  then show ?thesis by (simp add: weight_def)
next
  case False
  then obtain s0 where "s0 \<in> set (nextStates network T s)" by (cases "nextStates network T s") auto
  then have pos: "0 < unopened network s" using nextStates_unopened by fastforce
  define u where "u = unopened network s - 1"
  have u: "unopened network s = Suc u" using pos by (simp add: u_def)
  have "weight network x \<le> Suc (table_bound network) ^ u" if "x \<in> set (nextStates network T s)" for x
  proof -
    have "unopened network x \<le> u" using nextStates_unopened [OF that] u by simp
    then show ?thesis unfolding weight_def by (intro power_increasing) auto
  qed
  then have "sum_list (map (weight network) (nextStates network T s))
      \<le> length (nextStates network T s) * Suc (table_bound network) ^ u"
    by (rule sum_list_bound)
  also have "\<dots> \<le> table_bound network * Suc (table_bound network) ^ u"
    using length_nextStates by (intro mult_right_mono) auto
  also have "\<dots> < Suc (table_bound network) * Suc (table_bound network) ^ u"
    by simp
  finally show ?thesis by (simp add: weight_def u)
qed

text \<open>The \<^verbatim>\<open>while (!states.empty())\<close> loop of \<^verbatim>\<open>part1\<close>.\<close>

function part1_while :: "ValveNetwork \<Rightarrow> size_t \<Rightarrow> State list \<Rightarrow> size_t \<Rightarrow> State \<Rightarrow> size_t \<times> State" where
  "part1_while network timeLimit [] mx maxState = (mx, maxState)"
| "part1_while network timeLimit (state # states) mx maxState =
     (case part1_body network timeLimit state (states, mx, maxState) of
        (states', mx', maxState') \<Rightarrow> part1_while network timeLimit states' mx' maxState')"
  by pat_completeness auto
termination
proof (relation "measure (\<lambda>(network, timeLimit, states, mx, maxState). sum_list (map (weight network) states))")
  show "wf (measure (\<lambda>(network, timeLimit, states, mx, maxState). sum_list (map (weight network) states)))"
    by simp
next
  fix network :: ValveNetwork and timeLimit :: size_t and state :: State and states :: "State list"
    and mx :: size_t and maxState :: State and cfg states' rest mx' maxState'
  assume "(states', rest) = part1_body network timeLimit state (states, mx, maxState)"
  then have "states' = states \<or> states' = states @ nextStates network timeLimit state"
    by (auto simp: part1_body_def Let_def split: if_splits)
  moreover have "0 < weight network state" by (simp add: weight_def)
  ultimately have "sum_list (map (weight network) states') < sum_list (map (weight network) (state # states))"
    using weight_nextStates [of network timeLimit state] by auto
  then show "((network, timeLimit, states', mx', maxState'), (network, timeLimit, state # states, mx, maxState))
      \<in> measure (\<lambda>(network, timeLimit, states, mx, maxState). sum_list (map (weight network) states))"
    by simp
qed

text \<open>\<^verbatim>\<open>network.at("AA")\<close> throws when the network has no valve \<^verbatim>\<open>AA\<close>. The lines that
  \<^verbatim>\<open>part1\<close> prints about the winning state are left out.\<close>

definition part1 :: "ValveNetwork \<Rightarrow> size_t \<Rightarrow> error + size_t" where
  "part1 network timeLimit =
     (case map_of network ''AA'' of
        None \<Rightarrow> Inl (out_of_range ''AA'')
      | Some _ \<Rightarrow>
          (let start = ''AA'';
               maxState = \<lparr>current = start, openedValves = [], elapsedTime = 0\<rparr>
           in Inr (fst (part1_while network timeLimit [maxState] 0 maxState))))"

text \<open>The configuration of the loop (deque, \<^verbatim>\<open>max\<close>, \<^verbatim>\<open>maxState\<close>) after \<open>n\<close> passes through
  its body, or at its exit when it runs for fewer passes.\<close>

fun part1_passes ::
  "nat \<Rightarrow> ValveNetwork \<Rightarrow> size_t \<Rightarrow> State list \<times> size_t \<times> State \<Rightarrow> State list \<times> size_t \<times> State" where
  "part1_passes 0 network timeLimit cfg = cfg"
| "part1_passes (Suc n) network timeLimit ([], mx, maxState) = ([], mx, maxState)"
| "part1_passes (Suc n) network timeLimit (state # states, mx, maxState) =
     part1_passes n network timeLimit (part1_body network timeLimit state (states, mx, maxState))"

subsection \<open>\<^verbatim>\<open>main\<close>\<close>

text \<open>The loop over the files named on the command line. What is kept of the standard
  output is the answer printed for each file.\<close>

fun main_loop :: "line list list \<Rightarrow> size_t list \<Rightarrow> size_t list \<times> error option" where
  "main_loop [] out = (out, None)"
| "main_loop (input # rest) out =
     (case parse input of
        Inl ex \<Rightarrow> (out, Some ex)
      | Inr network \<Rightarrow>
          (case part1 network 30 of
             Inl ex \<Rightarrow> (out, Some ex)
           | Inr answer \<Rightarrow> main_loop rest (out @ [answer])))"

text \<open>The function-try-block of \<^verbatim>\<open>main\<close>: the answers printed, the errors reported on the
  standard error, and the exit status.\<close>

definition main :: "line list list \<Rightarrow> size_t list \<times> error list \<times> int" where
  "main argv =
     (case main_loop argv [] of
        (out, None) \<Rightarrow> (out, [], 0)
      | (out, Some ex) \<Rightarrow> (out, [ex], 1))"

subsection \<open>Paths in the network\<close>

text \<open>\<open>walk network a b n\<close>: following the connections of the valves, \<open>n\<close> tunnels lead from
  \<open>a\<close> to \<open>b\<close>. The minimum hop count from \<open>a\<close> to \<open>b\<close> is the least such \<open>n\<close>.\<close>

fun walk :: "ValveNetwork \<Rightarrow> label \<Rightarrow> label \<Rightarrow> nat \<Rightarrow> bool" where
  "walk network a b 0 \<longleftrightarrow> a = b"
| "walk network a b (Suc n) \<longleftrightarrow> (\<exists>c \<in> set (connections_of network a). walk network c b n)"

text \<open>Every tunnel can be taken in both directions.\<close>

definition two_way :: "ValveNetwork \<Rightarrow> bool" where
  "two_way network \<longleftrightarrow>
     (\<forall>a \<in> set (map fst network). \<forall>b \<in> set (connections_of network a). a \<in> set (connections_of network b))"

text \<open>What holds of the queue and the table each time the \<^verbatim>\<open>while\<close> loop of
  \<^verbatim>\<open>calculateDistanceToOtherValves\<close> tests its condition.\<close>

definition dijkstra_inv :: "ValveNetwork \<Rightarrow> label \<Rightarrow> label list \<Rightarrow> table \<Rightarrow> bool" where
  "dijkstra_inv network this Q t \<longleftrightarrow>
     distinct Q \<and> set Q \<subseteq> fst ` set network
   \<and> insert this (fst ` set network) \<subseteq> fst ` set t
   \<and> subscript t this = 0
   \<and> (\<forall>v. subscript t v \<le> UINT32_MAX)
   \<and> (\<forall>v. v \<in> fst ` set t \<longrightarrow> subscript t v \<noteq> UINT32_MAX \<longrightarrow>
          walk network this v (unat (subscript t v)))
   \<and> (\<forall>s. s \<in> fst ` set network \<longrightarrow> s \<notin> set Q \<longrightarrow> subscript t s \<noteq> UINT32_MAX)
   \<and> (\<forall>s u. s \<in> fst ` set network \<longrightarrow> s \<notin> set Q \<longrightarrow> u \<in> set (connections_of network s) \<longrightarrow>
          u \<in> fst ` set network \<and> unat (subscript t u) \<le> Suc (unat (subscript t s)))
   \<and> (\<forall>s q. s \<in> fst ` set network \<longrightarrow> s \<notin> set Q \<longrightarrow> q \<in> set Q \<longrightarrow>
          subscript t s \<le> subscript t q)"

subsection \<open>The states of the search\<close>

text \<open>\<open>reach network T s t\<close>: the loop of \<^verbatim>\<open>part1\<close>, having \<open>s\<close> in its deque, comes to push
  \<open>t\<close> (or \<open>t\<close> is \<open>s\<close>).\<close>

inductive reach :: "ValveNetwork \<Rightarrow> size_t \<Rightarrow> State \<Rightarrow> State \<Rightarrow> bool" for network T where
  reach_refl: "reach network T s s"
| reach_step: "s' \<in> set (nextStates network T s) \<Longrightarrow> reach network T s' t \<Longrightarrow> reach network T s t"

text \<open>The score of a state without wrap-around: what an opened valve contributes, and the sum
  of all flow rates of the network.\<close>

definition gain :: "ValveNetwork \<Rightarrow> nat \<Rightarrow> label \<times> size_t \<Rightarrow> nat" where
  "gain network T kv = unat (flowRate_of network (fst kv)) * (T - unat (snd kv))"

definition total_rate :: "ValveNetwork \<Rightarrow> nat" where
  "total_rate network = sum_list (map (\<lambda>kv. unat (flowRate (snd kv))) network)"

subsection \<open>Example inputs\<close>

text \<open>Two valves joined by a tunnel, as \<^verbatim>\<open>parse\<close> returns them.\<close>

definition two_valves :: ValveNetwork where
  "two_valves =
     [(''AA'', \<lparr>flowRate = 0, connections = [''BB''], distances = [(''AA'', 0), (''BB'', 1)]\<rparr>),
      (''BB'', \<lparr>flowRate = 5, connections = [''AA''], distances = [(''AA'', 1), (''BB'', 0)]\<rparr>)]"

text \<open>Three valves on a ring of one-way tunnels, and two valves without any tunnel, as the
  first loop of \<^verbatim>\<open>parse\<close> builds them.\<close>

definition one_way_ring :: ValveNetwork where
  "one_way_ring =
     [(''AA'', \<lparr>flowRate = 0, connections = [''BB''], distances = []\<rparr>),
      (''BB'', \<lparr>flowRate = 0, connections = [''CC''], distances = []\<rparr>),
      (''CC'', \<lparr>flowRate = 0, connections = [''AA''], distances = []\<rparr>)]"

definition apart :: ValveNetwork where
  "apart =
     [(''AA'', \<lparr>flowRate = 0, connections = [], distances = []\<rparr>),
      (''BB'', \<lparr>flowRate = 0, connections = [], distances = []\<rparr>)]"

text \<open>A single valve with the flow rate \<open>2 ^ 63\<close>, as \<^verbatim>\<open>parse\<close> returns it.\<close>

definition heavy :: ValveNetwork where
  "heavy = [(''AA'', \<lparr>flowRate = 9223372036854775808, connections = [], distances = [(''AA'', 0)]\<rparr>)]"

text \<open>The state \<^verbatim>\<open>State maxState(start, {}, 0)\<close> that \<^verbatim>\<open>part1\<close> pushes first.\<close>

definition start_state :: State where
  "start_state = \<lparr>current = ''AA'', openedValves = [], elapsedTime = 0\<rparr>"

section \<open>The score of a state\<close>

lemma foldl_plus_sum_list: "foldl (+) a xs = a + sum_list (xs :: size_t list)"
  by (induction xs arbitrary: a) (auto simp: add.assoc)

section \<open>The search\<close>

text \<open>
  Claim C10. When the network has no valve labelled \<^verbatim>\<open>AA\<close>, \<^verbatim>\<open>part1\<close> throws (the
  \<^verbatim>\<open>std::out_of_range\<close> of \<^verbatim>\<open>network.at("AA")\<close>) and returns no score: the loop is not entered.
\<close>

theorem part1_without_AA:
  "map_of network ''AA'' = None \<Longrightarrow> part1 network timeLimit = Inl (out_of_range ''AA'')"
  by (simp add: part1_def)

theorem part1_without_AA_witness:
  "map_of [(''BB'', \<lparr>flowRate = 5, connections = [], distances = [(''BB'', 0)]\<rparr>)] ''AA'' = None
   \<and> part1 [(''BB'', \<lparr>flowRate = 5, connections = [], distances = [(''BB'', 0)]\<rparr>)] 30 = Inl (out_of_range ''AA'')"
  using part1_without_AA [of "[(''BB'', \<lparr>flowRate = 5, connections = [], distances = [(''BB'', 0)]\<rparr>)]" 30]
  by simp

lemma part1_while_passes:
  "part1_while network T (fst (part1_passes n network T cfg)) (fst (snd (part1_passes n network T cfg)))
     (snd (snd (part1_passes n network T cfg)))
   = part1_while network T (fst cfg) (fst (snd cfg)) (snd (snd cfg))"
proof (induction n network T cfg rule: part1_passes.induct)
  case (3 n network timeLimit state states mx maxState)
  then show ?case by (simp add: case_prod_beta)
qed simp_all

lemma nextStates_iff:
  "s \<in> set (nextStates network T p) \<longleftrightarrow>
     (\<exists>target distance.
        (target, distance) \<in> set (distances_of network (current p))
      \<and> target \<notin> fst ` set (openedValves p)
      \<and> flowRate_of network target > 0
      \<and> elapsedTime p < T
      \<and> s = \<lparr>current = target,
              openedValves = AList.update target (elapsedTime p + distance + 1) (openedValves p),
              elapsedTime = elapsedTime p + distance + 1\<rparr>)"
  unfolding nextStates_def by (auto simp: image_iff)

lemma part1_body_pushed:
  "s \<in> set (fst (part1_body network T state (states, mx, ms))) \<Longrightarrow>
   s \<in> set states \<or> s \<in> set (nextStates network T state)"
  by (auto simp: part1_body_def Let_def split: if_splits)

lemma part1_passes_pushed:
  "s \<in> set (fst (part1_passes n network T cfg)) \<Longrightarrow>
   s \<in> set (fst cfg) \<or>
   (\<exists>m<n. \<exists>p rest. fst (part1_passes m network T cfg) = p # rest \<and> s \<in> set (nextStates network T p))"
proof (induction n network T cfg rule: part1_passes.induct)
  case (1 network timeLimit cfg)
  then show ?case by simp
next
  case (2 n network timeLimit mx maxState)
  then show ?case by simp
next
  case (3 n network timeLimit state states mx maxState)
  let ?cfg = "part1_body network timeLimit state (states, mx, maxState)"
  from "3.prems" have "s \<in> set (fst (part1_passes n network timeLimit ?cfg))" by simp
  from "3.IH" [OF this] consider
      (old) "s \<in> set states"
    | (new) "s \<in> set (nextStates network timeLimit state)"
    | (later) m p rest where "m < n" "fst (part1_passes m network timeLimit ?cfg) = p # rest"
        "s \<in> set (nextStates network timeLimit p)"
    using part1_body_pushed [of s network timeLimit state states mx maxState] by blast
  then show ?case
  proof cases
    case old
    then show ?thesis by simp
  next
    case new
    have "fst (part1_passes 0 network timeLimit (state # states, mx, maxState)) = state # states"
      by simp
    then show ?thesis using new by blast
  next
    case later
    have "fst (part1_passes (Suc m) network timeLimit (state # states, mx, maxState)) = p # rest"
      using later(2) by simp
    moreover have "Suc m < Suc n" using later(1) by simp
    ultimately show ?thesis using later(3) by blast
  qed
qed

text \<open>
  Claim C1, as stated: every state that \<^verbatim>\<open>part1\<close> puts into its deque has an elapsed time of at
  most the time limit. It fails: with the limit 1 the start state (elapsed time 0) moves to
  \<^verbatim>\<open>BB\<close> at distance 1 and opens it, and the state pushed has the elapsed time 2.
\<close>

theorem part1_overshoots:
  "parse [(''AA'', 0, [''BB'']), (''BB'', 5, [''AA''])] = Inr two_valves
   \<and> part1_passes 1 two_valves 1 ([start_state], 0, start_state)
       = ([\<lparr>current = ''BB'', openedValves = [(''BB'', 2)], elapsedTime = 2\<rparr>], 0, start_state)
   \<and> \<not> elapsedTime \<lparr>current = ''BB'', openedValves = [(''BB'', 2)], elapsedTime = 2\<rparr> \<le> 1"
  by code_simp

text \<open>
  Claim C1, amended: every state in the deque of \<^verbatim>\<open>part1\<close>, after any number \<open>n\<close> of passes of
  its loop, is the start state or was pushed in an earlier pass: the state \<open>p\<close> at the front of
  the deque in that pass had an elapsed time below the time limit, and moved to a valve of
  its table that \<open>p\<close> had not opened and that has a nonzero flow rate. The new state is at
  that valve, has the opened valves of \<open>p\<close> and that valve, opened at the new elapsed time,
  which is the elapsed time of \<open>p\<close> plus the distance plus 1.
\<close>

theorem part1_enqueued:
  assumes "s \<in> set (fst (part1_passes n network T ([start_state], 0, start_state)))"
  shows "s = start_state \<or>
    (\<exists>m<n. \<exists>p rest target distance.
       fst (part1_passes m network T ([start_state], 0, start_state)) = p # rest
     \<and> (target, distance) \<in> set (distances_of network (current p))
     \<and> target \<notin> fst ` set (openedValves p)
     \<and> flowRate_of network target > 0
     \<and> elapsedTime p < T
     \<and> s = \<lparr>current = target,
             openedValves = AList.update target (elapsedTime p + distance + 1) (openedValves p),
             elapsedTime = elapsedTime p + distance + 1\<rparr>)"
proof -
  from part1_passes_pushed [OF assms] consider "s = start_state"
    | m p rest where "m < n" "fst (part1_passes m network T ([start_state], 0, start_state)) = p # rest"
        "s \<in> set (nextStates network T p)"
    by auto
  then show ?thesis
  proof cases
    case 1
    then show ?thesis by simp
  next
    case 2
    from 2(3) [unfolded nextStates_iff] obtain target distance where
      "(target, distance) \<in> set (distances_of network (current p))"
      "target \<notin> fst ` set (openedValves p)" "flowRate_of network target > 0" "elapsedTime p < T"
      "s = \<lparr>current = target,
             openedValves = AList.update target (elapsedTime p + distance + 1) (openedValves p),
             elapsedTime = elapsedTime p + distance + 1\<rparr>"
      by blast
    then show ?thesis using 2(1,2) by blast
  qed
qed

theorem part1_enqueued_witness:
  "\<lparr>current = ''BB'', openedValves = [(''BB'', 2)], elapsedTime = 2\<rparr>
     \<in> set (fst (part1_passes 1 two_valves 1 ([start_state], 0, start_state)))
   \<and> (\<exists>m<1. \<exists>p rest target distance.
       fst (part1_passes m two_valves 1 ([start_state], 0, start_state)) = p # rest
     \<and> (target, distance) \<in> set (distances_of two_valves (current p))
     \<and> target \<notin> fst ` set (openedValves p)
     \<and> flowRate_of two_valves target > 0
     \<and> elapsedTime p < 1
     \<and> \<lparr>current = ''BB'', openedValves = [(''BB'', 2)], elapsedTime = 2\<rparr>
         = \<lparr>current = target,
             openedValves = AList.update target (elapsedTime p + distance + 1) (openedValves p),
             elapsedTime = elapsedTime p + distance + 1\<rparr>)"
proof -
  have h: "\<lparr>current = ''BB'', openedValves = [(''BB'', 2)], elapsedTime = 2\<rparr>
     \<in> set (fst (part1_passes 1 two_valves 1 ([start_state], 0, start_state)))"
    by code_simp
  have ne: "\<lparr>current = ''BB'', openedValves = [(''BB'', 2)], elapsedTime = 2\<rparr> \<noteq> start_state"
    by (simp add: start_state_def)
  show ?thesis using h ne part1_enqueued [OF h] by (simp only: simp_thms)
qed

lemma flowRate_of_zero:
  "\<forall>kv \<in> set network. flowRate (snd kv) = 0 \<Longrightarrow> flowRate_of network p = 0"
  by (auto simp: flowRate_of_def split: option.splits dest!: map_of_SomeD)

text \<open>
  Claim C8, as stated: on every network in which no valve has a nonzero flow rate \<^verbatim>\<open>part1\<close>
  returns the score 0. It fails on a network without the valve \<^verbatim>\<open>AA\<close>, such as the empty
  network of an empty file, or a single valve \<^verbatim>\<open>BB\<close> of flow rate 0: \<^verbatim>\<open>part1\<close> throws.
\<close>

theorem part1_no_flow_no_AA:
  "parse [] = Inr []
   \<and> part1 [] 30 = Inl (out_of_range ''AA'')
   \<and> parse [(''BB'', 0, [])] = Inr [(''BB'', \<lparr>flowRate = 0, connections = [], distances = [(''BB'', 0)]\<rparr>)]
   \<and> flowRate \<lparr>flowRate = 0, connections = [], distances = [(''BB'', 0)]\<rparr> = 0
   \<and> part1 [(''BB'', \<lparr>flowRate = 0, connections = [], distances = [(''BB'', 0)]\<rparr>)] 30 = Inl (out_of_range ''AA'')"
  by code_simp

text \<open>
  Claim C8, amended: on a network that has the start valve \<^verbatim>\<open>AA\<close> and in which every valve
  has flow rate zero, \<^verbatim>\<open>part1\<close> returns the score 0, whatever the time limit.
\<close>

theorem part1_no_flow:
  assumes "map_of network ''AA'' \<noteq> None" and "\<forall>kv \<in> set network. flowRate (snd kv) = 0"
  shows "part1 network timeLimit = Inr 0"
proof -
  have "nextStates network timeLimit s = []" for s
    using flowRate_of_zero [OF assms(2)] by (simp add: nextStates_def)
  then show ?thesis using assms(1)
    by (auto simp: part1_def part1_body_def totalPressureRelieved_def)
qed

theorem part1_no_flow_witness:
  "map_of [(''AA'', \<lparr>flowRate = 0, connections = [], distances = [(''AA'', 0)]\<rparr>)] ''AA'' \<noteq> None
   \<and> list_all (\<lambda>kv. flowRate (snd kv) = 0) [(''AA'', \<lparr>flowRate = 0, connections = [], distances = [(''AA'', 0)]\<rparr>)]
   \<and> part1 [(''AA'', \<lparr>flowRate = 0, connections = [], distances = [(''AA'', 0)]\<rparr>)] 30 = Inr 0"
  using part1_no_flow [of "[(''AA'', \<lparr>flowRate = 0, connections = [], distances = [(''AA'', 0)]\<rparr>)]" 30]
  by simp

subsection \<open>A larger time limit\<close>

lemma reach_trans: "reach network T s t \<Longrightarrow> reach network T t u \<Longrightarrow> reach network T s u"
  by (induction rule: reach.induct) (auto intro: reach.intros)

lemma reach_terminal: "reach network T s t \<Longrightarrow> nextStates network T s = [] \<Longrightarrow> t = s"
  by (induction rule: reach.induct) auto

lemma nextStates_mono:
  "T1 \<le> T2 \<Longrightarrow> s' \<in> set (nextStates network T1 s) \<Longrightarrow> s' \<in> set (nextStates network T2 s)"
  by (auto simp: nextStates_def)

lemma reach_mono: "reach network T1 s t \<Longrightarrow> T1 \<le> T2 \<Longrightarrow> reach network T2 s t"
  by (induction rule: reach.induct) (auto intro: reach.intros nextStates_mono)

lemma reach_final: "\<exists>t. reach network T s t \<and> nextStates network T t = []"
proof (induction "unopened network s" arbitrary: s rule: less_induct)
  case less
  show ?case
  proof (cases "nextStates network T s = []")
    case True
    then show ?thesis by (blast intro: reach_refl)
  next
    case False
    then obtain s' where s': "s' \<in> set (nextStates network T s)"
      by (cases "nextStates network T s") auto
    from less [OF nextStates_unopened [OF s']] obtain t where "reach network T s' t" "nextStates network T t = []"
      by blast
    then show ?thesis using s' by (blast intro: reach_step)
  qed
qed

lemma part1_while_lower:
  "part1_while network T states mx ms = (M, Ms) \<Longrightarrow>
   mx \<le> M \<and> (\<forall>s \<in> set states. \<forall>t. reach network T s t \<longrightarrow> nextStates network T t = [] \<longrightarrow>
                 totalPressureRelieved network t T \<le> M)"
proof (induction network T states mx ms rule: part1_while.induct)
  case (1 network timeLimit mx maxState)
  then show ?case by simp
next
  case (2 network T state states mx ms)
  show ?case
  proof (cases "nextStates network T state = []")
    case True
    define mx' where "mx' = (if totalPressureRelieved network state T > mx then totalPressureRelieved network state T else mx)"
    define ms' where "ms' = (if totalPressureRelieved network state T > mx then state else ms)"
    have body: "part1_body network T state (states, mx, ms) = (states, mx', ms')"
      using True by (simp add: part1_body_def mx'_def ms'_def)
    have run: "part1_while network T states mx' ms' = (M, Ms)"
      using "2.prems" body by simp
    note IH = "2.IH" [OF body [symmetric] refl run]
    have le: "mx \<le> mx'" "totalPressureRelieved network state T \<le> mx'"
      by (auto simp: mx'_def)
    have own: "totalPressureRelieved network t T \<le> M" if "reach network T state t" for t
    proof -
      have "t = state" using that True by (rule reach_terminal)
      then show ?thesis using le(2) IH by (metis order_trans)
    qed
    show ?thesis using IH le(1) own by (auto intro: order_trans)
  next
    case False
    have body: "part1_body network T state (states, mx, ms) = (states @ nextStates network T state, mx, ms)"
      using False by (simp add: part1_body_def)
    have run: "part1_while network T (states @ nextStates network T state) mx ms = (M, Ms)"
      using "2.prems" body by simp
    note IH = "2.IH" [OF body [symmetric] refl run]
    have own: "totalPressureRelieved network t T \<le> M"
      if "reach network T state t" "nextStates network T t = []" for t
      using that
    proof (cases rule: reach.cases)
      case reach_refl
      then show ?thesis using False that(2) by simp
    next
      case (reach_step s')
      then show ?thesis using IH that(2) by auto
    qed
    show ?thesis using IH own by auto
  qed
qed

lemma part1_while_attained:
  "part1_while network T states mx ms = (M, Ms) \<Longrightarrow>
   M = mx \<or> (\<exists>s \<in> set states. \<exists>t. reach network T s t \<and> nextStates network T t = []
                 \<and> M = totalPressureRelieved network t T)"
proof (induction network T states mx ms rule: part1_while.induct)
  case (1 network timeLimit mx maxState)
  then show ?case by simp
next
  case (2 network T state states mx ms)
  show ?case
  proof (cases "nextStates network T state = []")
    case True
    define mx' where "mx' = (if totalPressureRelieved network state T > mx then totalPressureRelieved network state T else mx)"
    define ms' where "ms' = (if totalPressureRelieved network state T > mx then state else ms)"
    have body: "part1_body network T state (states, mx, ms) = (states, mx', ms')"
      using True by (simp add: part1_body_def mx'_def ms'_def)
    have run: "part1_while network T states mx' ms' = (M, Ms)"
      using "2.prems" body by simp
    note IH = "2.IH" [OF body [symmetric] refl run]
    have "mx' = mx \<or> mx' = totalPressureRelieved network state T" by (simp add: mx'_def)
    moreover have "reach network T state state" by (rule reach_refl)
    ultimately show ?thesis using IH True by (auto simp del: part1_while.simps)
  next
    case False
    have body: "part1_body network T state (states, mx, ms) = (states @ nextStates network T state, mx, ms)"
      using False by (simp add: part1_body_def)
    have run: "part1_while network T (states @ nextStates network T state) mx ms = (M, Ms)"
      using "2.prems" body by simp
    note IH = "2.IH" [OF body [symmetric] refl run]
    then show ?thesis by (auto intro: reach_step simp del: part1_while.simps)
  qed
qed


lemma update_absent: "k \<notin> fst ` set al \<Longrightarrow> AList.update k v al = al @ [(k, v)]"
  by (induction al) auto

lemma nextStates_opened:
  assumes "s' \<in> set (nextStates network T s)"
  shows "set (openedValves s) \<subseteq> set (openedValves s')"
    and "distinct (map fst (openedValves s)) \<Longrightarrow> distinct (map fst (openedValves s'))"
proof -
  from assms obtain target v where new: "target \<notin> fst ` set (openedValves s)"
    and s': "openedValves s' = AList.update target v (openedValves s)"
    by (auto simp: nextStates_def)
  show "set (openedValves s) \<subseteq> set (openedValves s')"
    by (auto simp: s' update_absent [OF new])
  show "distinct (map fst (openedValves s)) \<Longrightarrow> distinct (map fst (openedValves s'))"
    by (simp add: s' distinct_update)
qed

lemma reach_opened:
  "reach network T s t \<Longrightarrow> distinct (map fst (openedValves s)) \<Longrightarrow>
   set (openedValves s) \<subseteq> set (openedValves t) \<and> distinct (map fst (openedValves t))"
proof (induction rule: reach.induct)
  case (reach_refl s)
  then show ?case by simp
next
  case (reach_step s' s t)
  from nextStates_opened [OF reach_step.hyps(1)] reach_step.prems
  have "set (openedValves s) \<subseteq> set (openedValves s')" "distinct (map fst (openedValves s'))"
    by blast+
  then show ?case using reach_step.IH by blast
qed

lemma rate_sum_le:
  "finite K \<Longrightarrow> (\<Sum>k \<in> K. unat (flowRate_of network k)) \<le> total_rate network"
proof (induction network arbitrary: K)
  case Nil
  then show ?case by (simp add: flowRate_of_def total_rate_def)
next
  case (Cons kv network)
  obtain l x where kv: "kv = (l, x)" by (cases kv)
  have rate: "flowRate_of (kv # network) k = (if k = l then flowRate x else flowRate_of network k)" for k
    by (simp add: flowRate_of_def kv)
  have "(\<Sum>k \<in> K. unat (flowRate_of (kv # network) k))
      = (\<Sum>k \<in> K \<inter> {l}. unat (flowRate_of (kv # network) k)) + (\<Sum>k \<in> K - {l}. unat (flowRate_of (kv # network) k))"
    using Cons.prems by (subst sum.union_disjoint [symmetric]) (auto intro: arg_cong [where f = "sum _"])
  also have "(\<Sum>k \<in> K \<inter> {l}. unat (flowRate_of (kv # network) k)) \<le> unat (flowRate x)"
    by (cases "l \<in> K") (simp_all add: rate)
  also have "(\<Sum>k \<in> K - {l}. unat (flowRate_of (kv # network) k)) = (\<Sum>k \<in> K - {l}. unat (flowRate_of network k))"
    by (rule sum.cong) (auto simp: rate)
  also have "\<dots> \<le> total_rate network" using Cons.prems by (intro Cons.IH) simp
  finally show ?case by (simp add: total_rate_def kv)
qed

lemma gain_bound:
  assumes "distinct (map fst al)"
  shows "sum_list (map (gain network T) al) \<le> total_rate network * T"
proof -
  have "sum_list (map (gain network T) al) \<le> sum_list (map (\<lambda>kv. unat (flowRate_of network (fst kv)) * T) al)"
    by (rule sum_list_mono) (simp add: gain_def)
  also have "\<dots> = sum_list (map (\<lambda>k. unat (flowRate_of network k)) (map fst al)) * T"
    by (simp add: sum_list_mult_const [symmetric] comp_def)
  also have "sum_list (map (\<lambda>k. unat (flowRate_of network k)) (map fst al))
      = (\<Sum>k \<in> set (map fst al). unat (flowRate_of network k))"
    using assms by (rule sum_list_distinct_conv_sum_set)
  also have "\<dots> \<le> total_rate network" by (rule rate_sum_le) simp
  finally show ?thesis by simp
qed

lemma gain_mono:
  assumes "T1 \<le> T2" and "set al \<subseteq> set al'" and "distinct al" and "distinct al'"
  shows "sum_list (map (gain network T1) al) \<le> sum_list (map (gain network T2) al')"
proof -
  have "sum_list (map (gain network T1) al) = sum (gain network T1) (set al)"
    using assms(3) by (rule sum_list_distinct_conv_sum_set)
  also have "\<dots> \<le> sum (gain network T2) (set al)"
    using assms(1) by (intro sum_mono) (simp add: gain_def diff_le_mono)
  also have "\<dots> \<le> sum (gain network T2) (set al')"
    using assms(2) by (intro sum_mono2) auto
  also have "\<dots> = sum_list (map (gain network T2) al')"
    using assms(4) by (rule sum_list_distinct_conv_sum_set [symmetric])
  finally show ?thesis .
qed

lemma unat_term:
  fixes T :: size_t
  assumes "gain network (unat T) kv < 2 ^ 64"
  shows "unat (if snd kv \<ge> T then 0 else flowRate_of network (fst kv) * (T - snd kv)) = gain network (unat T) kv"
proof (cases "snd kv \<ge> T")
  case True
  then have "unat T - unat (snd kv) = 0" by (simp add: word_le_nat_alt)
  then show ?thesis using True by (simp add: gain_def)
next
  case False
  then have "snd kv \<le> T" by simp
  then have sub: "unat (T - snd kv) = unat T - unat (snd kv)" by (rule unat_sub)
  have "unat (flowRate_of network (fst kv)) * unat (T - snd kv) < 2 ^ LENGTH(64)"
    using assms by (simp add: gain_def sub)
  then have "unat (flowRate_of network (fst kv) * (T - snd kv))
      = unat (flowRate_of network (fst kv)) * unat (T - snd kv)"
    by (rule unat_mult_lem [THEN iffD1])
  then show ?thesis using False by (simp add: gain_def sub)
qed

lemma unat_sum_list:
  "sum_list (map unat ws) < 2 ^ 64 \<Longrightarrow> unat (sum_list ws) = sum_list (map unat (ws :: size_t list))"
proof (induction ws)
  case Nil
  then show ?case by simp
next
  case (Cons w ws)
  then have IH: "unat (sum_list ws) = sum_list (map unat ws)" by simp
  have "unat w + unat (sum_list ws) < 2 ^ LENGTH(64)" using Cons.prems by (simp add: IH)
  then have "unat (w + sum_list ws) = unat w + unat (sum_list ws)"
    by (rule unat_add_lem [THEN iffD1])
  then show ?case by (simp add: IH)
qed

lemma unat_totalPressureRelieved:
  assumes "sum_list (map (gain network (unat T)) (openedValves s)) < 2 ^ 64"
  shows "unat (totalPressureRelieved network s T) = sum_list (map (gain network (unat T)) (openedValves s))"
proof -
  let ?f = "\<lambda>kv. if snd kv \<ge> T then 0 else flowRate_of network (fst kv) * (T - snd kv)"
  have each: "unat (?f kv) = gain network (unat T) kv" if "kv \<in> set (openedValves s)" for kv
  proof (rule unat_term)
    have "gain network (unat T) kv \<le> sum_list (map (gain network (unat T)) (openedValves s))"
      using that by (simp add: member_le_sum_list)
    then show "gain network (unat T) kv < 2 ^ 64" using assms by simp
  qed
  then have eq: "map unat (map ?f (openedValves s)) = map (gain network (unat T)) (openedValves s)"
    by simp
  have "sum_list (map unat (map ?f (openedValves s))) < 2 ^ 64"
    unfolding eq by (rule assms)
  then have "unat (sum_list (map ?f (openedValves s))) = sum_list (map unat (map ?f (openedValves s)))"
    by (rule unat_sum_list)
  then have "unat (sum_list (map ?f (openedValves s))) = sum_list (map (gain network (unat T)) (openedValves s))"
    unfolding eq .
  then show ?thesis by (simp add: totalPressureRelieved_def foldl_plus_sum_list)
qed


text \<open>
  Claim C2, as stated: the score of a state is the sum, over the valves it has opened, of the
  flow rate times \<open>T - t\<close>. It fails where the product wraps around: the state in which the
  search on the network \<open>heavy\<close> ends for the limit 3 has opened its valve of flow rate
  \<open>2 ^ 63\<close> at time 1; the sum is \<open>2 ^ 64\<close>, the score is 0.
\<close>

theorem totalPressureRelieved_wraps:
  "part1_passes 1 heavy 3 ([start_state], 0, start_state)
     = ([\<lparr>current = ''AA'', openedValves = [(''AA'', 1)], elapsedTime = 1\<rparr>], 0, start_state)
   \<and> nextStates heavy 3 \<lparr>current = ''AA'', openedValves = [(''AA'', 1)], elapsedTime = 1\<rparr> = []
   \<and> totalPressureRelieved heavy \<lparr>current = ''AA'', openedValves = [(''AA'', 1)], elapsedTime = 1\<rparr> 3 = 0
   \<and> unat (flowRate_of heavy ''AA'') * (unat (3 :: size_t) - unat (1 :: size_t)) = 18446744073709551616"
proof -
  have a: "part1_passes 1 heavy 3 ([start_state], 0, start_state)
     = ([\<lparr>current = ''AA'', openedValves = [(''AA'', 1)], elapsedTime = 1\<rparr>], 0, start_state)"
    by code_simp
  have b: "nextStates heavy 3 \<lparr>current = ''AA'', openedValves = [(''AA'', 1)], elapsedTime = 1\<rparr> = []"
    by code_simp
  have c: "totalPressureRelieved heavy \<lparr>current = ''AA'', openedValves = [(''AA'', 1)], elapsedTime = 1\<rparr> 3 = 0"
    by code_simp
  have d: "unat (flowRate_of heavy ''AA'') * (unat (3 :: size_t) - unat (1 :: size_t)) = 18446744073709551616"
    by (simp add: flowRate_of_def heavy_def)
  show ?thesis using a b c d by simp
qed

text \<open>
  Claim C2, amended: when the sum, over the valves a state has opened, of the flow rate times
  \<open>T - t\<close> (\<open>t\<close> the time recorded for the valve, a valve with \<open>t \<ge> T\<close> counting zero) is below
  \<open>2 ^ 64\<close>, the score \<^verbatim>\<open>totalPressureRelieved(T)\<close> of the state is that sum.
\<close>

theorem totalPressureRelieved_sum:
  assumes "distinct (map fst (openedValves state))"
    and "(\<Sum>(valve, opened) \<in> set (openedValves state).
            unat (flowRate_of network valve) * (unat timeLimit - unat opened)) < 2 ^ 64"
  shows "unat (totalPressureRelieved network state timeLimit) =
    (\<Sum>(valve, opened) \<in> set (openedValves state).
       if unat timeLimit \<le> unat opened then 0
       else unat (flowRate_of network valve) * (unat timeLimit - unat opened))"
proof -
  have d: "distinct (openedValves state)" using assms(1) by (simp add: distinct_map)
  have list: "sum_list (map (gain network (unat timeLimit)) (openedValves state))
      = (\<Sum>(valve, opened) \<in> set (openedValves state).
            unat (flowRate_of network valve) * (unat timeLimit - unat opened))"
    using d by (simp add: sum_list_distinct_conv_sum_set gain_def case_prod_beta)
  have "unat (totalPressureRelieved network state timeLimit)
      = sum_list (map (gain network (unat timeLimit)) (openedValves state))"
    by (rule unat_totalPressureRelieved) (use assms(2) list in simp)
  also have "\<dots> = (\<Sum>(valve, opened) \<in> set (openedValves state).
       if unat timeLimit \<le> unat opened then 0
       else unat (flowRate_of network valve) * (unat timeLimit - unat opened))"
    unfolding list by (rule sum.cong) (auto simp: case_prod_beta)
  finally show ?thesis .
qed

theorem totalPressureRelieved_sum_witness:
  "distinct (map fst (openedValves \<lparr>current = ''BB'', openedValves = [(''BB'', 2)], elapsedTime = 2\<rparr>))
   \<and> (\<Sum>(valve, opened) \<in> set (openedValves \<lparr>current = ''BB'', openedValves = [(''BB'', 2)], elapsedTime = 2\<rparr>).
            unat (flowRate_of two_valves valve) * (unat (30 :: size_t) - unat opened)) < 2 ^ 64
   \<and> unat (totalPressureRelieved two_valves \<lparr>current = ''BB'', openedValves = [(''BB'', 2)], elapsedTime = 2\<rparr> 30) = 140"
proof -
  have h1: "distinct (map fst (openedValves \<lparr>current = ''BB'', openedValves = [(''BB'', 2)], elapsedTime = 2\<rparr>))"
    by simp
  have h2: "(\<Sum>(valve, opened) \<in> set (openedValves \<lparr>current = ''BB'', openedValves = [(''BB'', 2)], elapsedTime = 2\<rparr>).
            unat (flowRate_of two_valves valve) * (unat (30 :: size_t) - unat opened)) < 2 ^ 64"
    by (simp add: flowRate_of_def two_valves_def)
  show ?thesis using h1 h2 totalPressureRelieved_sum [OF h1 h2]
    by (simp add: flowRate_of_def two_valves_def)
qed

text \<open>
  Claim C3, as stated: the score returned by \<^verbatim>\<open>part1\<close> does not decrease when the time limit
  grows. It fails where the score wraps around: a valve with the flow rate \<open>2 ^ 63\<close> opened
  at time 1 scores \<open>2 ^ 63\<close> for the limit 2, and \<open>2 ^ 63 * 2 = 0\<close> in \<^verbatim>\<open>size_t\<close> for the limit 3.
\<close>

theorem part1_wraps:
  "parse [(''AA'', 9223372036854775808, [])] = Inr heavy
   \<and> part1 heavy 2 = Inr 9223372036854775808
   \<and> part1 heavy 3 = Inr 0
   \<and> (2 :: size_t) \<le> 3
   \<and> \<not> (9223372036854775808 :: size_t) \<le> 0"
  by code_simp

lemma part1_terminal_le:
  assumes T: "T1 \<le> T2"
    and small: "total_rate network * unat T2 < 2 ^ 64"
    and good: "distinct (map fst (openedValves t))"
    and r: "reach network T2 t t'"
  shows "totalPressureRelieved network t T1 \<le> totalPressureRelieved network t' T2"
proof -
  from reach_opened [OF r good] have sub: "set (openedValves t) \<subseteq> set (openedValves t')"
    and good': "distinct (map fst (openedValves t'))" by simp_all
  have d: "distinct (openedValves t)" "distinct (openedValves t')"
    using good good' by (simp_all add: distinct_map)
  have "unat T1 \<le> unat T2" using T by (simp add: word_le_nat_alt)
  then have le: "sum_list (map (gain network (unat T1)) (openedValves t))
      \<le> sum_list (map (gain network (unat T2)) (openedValves t'))"
    using sub d by (rule gain_mono)
  have b2: "sum_list (map (gain network (unat T2)) (openedValves t')) < 2 ^ 64"
    using gain_bound [OF good', of network "unat T2"] small by linarith
  then have b1: "sum_list (map (gain network (unat T1)) (openedValves t)) < 2 ^ 64"
    using le by linarith
  show ?thesis
    unfolding word_le_nat_alt unat_totalPressureRelieved [OF b1] unat_totalPressureRelieved [OF b2]
    by (rule le)
qed

text \<open>
  Claim C3, amended: for time limits \<open>T1 \<le> T2\<close> such that the sum of all flow rates of the
  network times \<open>T2\<close> is below \<open>2 ^ 64\<close> (no score can wrap around), the score \<^verbatim>\<open>part1\<close> returns
  for \<open>T1\<close> is at most the score it returns for \<open>T2\<close>.
\<close>

theorem part1_monotone:
  assumes "T1 \<le> T2"
    and "sum_list (map (\<lambda>kv. unat (flowRate (snd kv))) network) * unat T2 < 2 ^ 64"
    and "part1 network T1 = Inr m1"
    and "part1 network T2 = Inr m2"
  shows "m1 \<le> m2"
proof -
  define start where "start = \<lparr>current = ''AA'', openedValves = [], elapsedTime = 0\<rparr>"
  obtain s1 where run1: "part1_while network T1 [start] 0 start = (m1, s1)"
    using assms(3) by (cases "part1_while network T1 [start] 0 start")
      (auto simp: part1_def start_def split: option.splits)
  obtain s2 where run2: "part1_while network T2 [start] 0 start = (m2, s2)"
    using assms(4) by (cases "part1_while network T2 [start] 0 start")
      (auto simp: part1_def start_def split: option.splits)
  have small: "total_rate network * unat T2 < 2 ^ 64" using assms(2) by (simp add: total_rate_def)
  from part1_while_attained [OF run1]
  consider "m1 = 0"
    | t where "reach network T1 start t" "nextStates network T1 t = []" "m1 = totalPressureRelieved network t T1"
    by auto
  then show ?thesis
  proof cases
    case 1
    then show ?thesis by simp
  next
    case 2
    have r: "reach network T2 start t" using 2(1) assms(1) by (rule reach_mono)
    obtain t' where t': "reach network T2 t t'" "nextStates network T2 t' = []"
      using reach_final by blast
    have "reach network T2 start t'" using r t'(1) by (rule reach_trans)
    then have up: "totalPressureRelieved network t' T2 \<le> m2"
      using part1_while_lower [OF run2] t'(2) by simp
    have "distinct (map fst (openedValves start))" by (simp add: start_def)
    then have "distinct (map fst (openedValves t))" using reach_opened [OF r] by simp
    then have "totalPressureRelieved network t T1 \<le> totalPressureRelieved network t' T2"
      using assms(1) small t'(1) by (intro part1_terminal_le)
    then show ?thesis using up 2(3) by simp
  qed
qed

theorem part1_monotone_witness:
  "(3 :: size_t) \<le> 4
   \<and> sum_list (map (\<lambda>kv. unat (flowRate (snd kv))) two_valves) * unat (4 :: size_t) < 2 ^ 64
   \<and> part1 two_valves 3 = Inr 5
   \<and> part1 two_valves 4 = Inr 10
   \<and> (5 :: size_t) \<le> 10"
proof -
  have h1: "(3 :: size_t) \<le> 4" by simp
  have h2: "sum_list (map (\<lambda>kv. unat (flowRate (snd kv))) two_valves) * unat (4 :: size_t) < 2 ^ 64"
    by (simp add: two_valves_def)
  have h3: "part1 two_valves 3 = Inr 5" by code_simp
  have h4: "part1 two_valves 4 = Inr 10" by code_simp
  show ?thesis using h1 h2 h3 h4 part1_monotone [OF h1 h2 h3 h4] by simp
qed

section \<open>The distance tables\<close>

subsection \<open>A valve without a distance\<close>

lemma while_Q_passes_result:
  "while_Q_passes n network Q t = Inr (Q', t') \<Longrightarrow> while_Q network Q t = while_Q network Q' t'"
proof (induction n network Q t rule: while_Q_passes.induct)
  case (3 n network q qs t)
  then show ?case by (auto split: sum.splits)
qed simp_all

text \<open>
  Claim C5. When the loop of \<^verbatim>\<open>calculateDistanceToOtherValves\<close>, after any number of passes,
  takes from \<^verbatim>\<open>Q\<close> a valve whose distance is still the initial \<^verbatim>\<open>UINT32_MAX\<close>, the computation
  throws (\<^verbatim>\<open>Processing node ... which has infinite distance\<close>) and returns no table.
\<close>

theorem calculate_unset_distance:
  assumes "init_Q network [] [] = Inr (t0, Q0)"
    and "while_Q_passes n network Q0 (AList.update this 0 t0) = Inr (q # qs, t)"
    and "subscript t (min_element_from (DistanceSorter network t) q qs) = UINT32_MAX"
  shows "calculateDistanceToOtherValves network this
     = Inl (infinite_distance (min_element_from (DistanceSorter network t) q qs))"
proof -
  have "while_Q_body network q qs t = Inl (infinite_distance (min_element_from (DistanceSorter network t) q qs))"
    using assms(3) by (simp add: while_Q_body_def)
  then have "while_Q network (q # qs) t = Inl (infinite_distance (min_element_from (DistanceSorter network t) q qs))"
    by simp
  then show ?thesis
    using assms(1) while_Q_passes_result [OF assms(2)] by (simp add: calculateDistanceToOtherValves_def)
qed

theorem calculate_unset_distance_witness:
  "init_Q apart [] [] = Inr ([(''AA'', UINT32_MAX), (''BB'', UINT32_MAX)], [''AA'', ''BB''])
   \<and> while_Q_passes 1 apart [''AA'', ''BB''] (AList.update ''AA'' 0 [(''AA'', UINT32_MAX), (''BB'', UINT32_MAX)])
       = Inr ([''BB''], [(''AA'', 0), (''BB'', UINT32_MAX)])
   \<and> subscript [(''AA'', 0), (''BB'', UINT32_MAX)]
       (min_element_from (DistanceSorter apart [(''AA'', 0), (''BB'', UINT32_MAX)]) ''BB'' []) = UINT32_MAX
   \<and> calculateDistanceToOtherValves apart ''AA'' = Inl (infinite_distance ''BB'')"
proof -
  have h1: "init_Q apart [] [] = Inr ([(''AA'', UINT32_MAX), (''BB'', UINT32_MAX)], [''AA'', ''BB''])"
    by code_simp
  have h2: "while_Q_passes 1 apart [''AA'', ''BB''] (AList.update ''AA'' 0 [(''AA'', UINT32_MAX), (''BB'', UINT32_MAX)])
       = Inr ([''BB''], [(''AA'', 0), (''BB'', UINT32_MAX)])"
    by code_simp
  have h3: "subscript [(''AA'', 0), (''BB'', UINT32_MAX)]
       (min_element_from (DistanceSorter apart [(''AA'', 0), (''BB'', UINT32_MAX)]) ''BB'' []) = UINT32_MAX"
    by (simp add: subscript_def)
  show ?thesis using h1 h2 h3 calculate_unset_distance [OF h1 h2 h3] by simp
qed

subsection \<open>The loop computes the minimum hop counts\<close>

lemma walk_snoc:
  "walk network a b n \<Longrightarrow> c \<in> set (connections_of network b) \<Longrightarrow> walk network a c (Suc n)"
proof (induction n arbitrary: a)
  case 0
  then show ?case by simp
next
  case (Suc n)
  from Suc.prems(1) obtain d where d: "d \<in> set (connections_of network a)" "walk network d b n"
    by auto
  have "walk network d c (Suc n)" using Suc.IH [OF d(2) Suc.prems(2)] .
  then show ?case using d(1) walk.simps(2) [of network a c "Suc n"] by blast
qed

lemma unat_succ:
  assumes "k \<le> UINT32_MAX"
  shows "unat (k + 1) = Suc (unat k)"
proof -
  have "unat k \<le> 4294967295" using assms by (simp add: UINT32_MAX_def word_le_nat_alt)
  then have "unat k + unat (1::size_t) < 2 ^ LENGTH(64)" by simp
  then show ?thesis by (simp add: unat_add_lem [THEN iffD1])
qed

lemma unat_below_max:
  assumes "k \<le> UINT32_MAX" and "k \<noteq> UINT32_MAX"
  shows "unat k < 4294967295"
proof -
  have "unat k \<le> 4294967295" using assms(1) by (simp add: UINT32_MAX_def word_le_nat_alt)
  moreover have "unat k \<noteq> 4294967295"
    using assms(2) by (simp add: UINT32_MAX_def word_unat_eq_iff)
  ultimately show ?thesis by simp
qed

lemma succ_le: "k \<le> UINT32_MAX \<Longrightarrow> k \<noteq> UINT32_MAX \<Longrightarrow> k + 1 \<le> UINT32_MAX"
  using unat_below_max [of k] unat_succ [of k]
  by (simp add: word_le_nat_alt) (simp add: UINT32_MAX_def)

lemma less_succ: "k \<le> UINT32_MAX \<Longrightarrow> k < k + 1"
  using unat_succ [of k] by (simp add: word_less_nat_alt)

lemma min_element_from_le:
  "\<forall>x \<in> set (s # xs). subscript t (min_element_from (DistanceSorter network t) s xs) \<le> subscript t x"
proof (induction xs arbitrary: s)
  case Nil
  then show ?case by simp
next
  case (Cons y ys)
  define s' where "s' = (if DistanceSorter network t y s then y else s)"
  have le: "subscript t s' \<le> subscript t s" "subscript t s' \<le> subscript t y"
    by (auto simp: s'_def DistanceSorter_def Let_def split: if_splits)
  have m: "min_element_from (DistanceSorter network t) s (y # ys) = min_element_from (DistanceSorter network t) s' ys"
    by (simp add: s'_def)
  have IH: "\<forall>x \<in> set (s' # ys). subscript t (min_element_from (DistanceSorter network t) s' ys) \<le> subscript t x"
    by (rule Cons.IH)
  then have "subscript t (min_element_from (DistanceSorter network t) s' ys) \<le> subscript t s'" by simp
  then have "subscript t (min_element_from (DistanceSorter network t) s' ys) \<le> subscript t s"
    "subscript t (min_element_from (DistanceSorter network t) s' ys) \<le> subscript t y"
    using le by (blast intro: order_trans)+
  then show ?case using IH unfolding m by simp
qed

lemma relax_result:
  assumes "relax network Q distance conns t = Inr t'"
  shows "(\<forall>c \<in> set conns. c \<in> fst ` set network)
    \<and> (\<forall>v. map_of t' v = (if v \<in> set conns \<and> v \<in> set Q \<and> distance + 1 < subscript t v
                            then Some (distance + 1) else map_of t v))"
  using assms
proof (induction conns arbitrary: t)
  case Nil
  then show ?case by simp
next
  case (Cons c conns)
  from Cons.prems obtain x where x: "map_of network c = Some x"
    by (auto split: option.splits)
  then have cV: "c \<in> fst ` set network" by (auto dest: map_of_SomeD intro: rev_image_eqI)
  define t1 where "t1 = (if c \<in> set Q \<and> distance + 1 < subscript t c then AList.update c (distance + 1) t else t)"
  have rest: "relax network Q distance conns t1 = Inr t'"
    using Cons.prems x by (auto simp: t1_def Let_def split: if_splits)
  note IH = Cons.IH [OF rest]
  have t1: "map_of t1 v = (if v = c \<and> c \<in> set Q \<and> distance + 1 < subscript t c then Some (distance + 1) else map_of t v)" for v
    by (simp add: t1_def update_conv')
  have s1: "subscript t1 v = (if v = c \<and> c \<in> set Q \<and> distance + 1 < subscript t c then distance + 1 else subscript t v)" for v
    by (simp add: subscript_def t1)
  show ?case
  proof (intro conjI allI)
    show "\<forall>c' \<in> set (c # conns). c' \<in> fst ` set network" using IH cV by simp
  next
    fix v
    have "map_of t' v = (if v \<in> set conns \<and> v \<in> set Q \<and> distance + 1 < subscript t1 v
                            then Some (distance + 1) else map_of t1 v)"
      using IH by blast
    then show "map_of t' v = (if v \<in> set (c # conns) \<and> v \<in> set Q \<and> distance + 1 < subscript t v
                            then Some (distance + 1) else map_of t v)"
      by (auto simp: t1 s1)
  qed
qed


lemma dijkstra_invD:
  assumes "dijkstra_inv network this Q t"
  shows "distinct Q" and "set Q \<subseteq> fst ` set network"
    and "insert this (fst ` set network) \<subseteq> fst ` set t"
    and "subscript t this = 0"
    and "\<And>v. subscript t v \<le> UINT32_MAX"
    and "\<And>v. v \<in> fst ` set t \<Longrightarrow> subscript t v \<noteq> UINT32_MAX \<Longrightarrow> walk network this v (unat (subscript t v))"
    and "\<And>s. s \<in> fst ` set network \<Longrightarrow> s \<notin> set Q \<Longrightarrow> subscript t s \<noteq> UINT32_MAX"
    and "\<And>s u. s \<in> fst ` set network \<Longrightarrow> s \<notin> set Q \<Longrightarrow> u \<in> set (connections_of network s) \<Longrightarrow>
           u \<in> fst ` set network \<and> unat (subscript t u) \<le> Suc (unat (subscript t s))"
    and "\<And>s q. s \<in> fst ` set network \<Longrightarrow> s \<notin> set Q \<Longrightarrow> q \<in> set Q \<Longrightarrow> subscript t s \<le> subscript t q"
  using assms unfolding dijkstra_inv_def by simp_all

lemma dijkstra_invI:
  assumes "distinct Q" and "set Q \<subseteq> fst ` set network"
    and "insert this (fst ` set network) \<subseteq> fst ` set t"
    and "subscript t this = 0"
    and "\<And>v. subscript t v \<le> UINT32_MAX"
    and "\<And>v. v \<in> fst ` set t \<Longrightarrow> subscript t v \<noteq> UINT32_MAX \<Longrightarrow> walk network this v (unat (subscript t v))"
    and "\<And>s. s \<in> fst ` set network \<Longrightarrow> s \<notin> set Q \<Longrightarrow> subscript t s \<noteq> UINT32_MAX"
    and "\<And>s u. s \<in> fst ` set network \<Longrightarrow> s \<notin> set Q \<Longrightarrow> u \<in> set (connections_of network s) \<Longrightarrow>
           u \<in> fst ` set network \<and> unat (subscript t u) \<le> Suc (unat (subscript t s))"
    and "\<And>s q. s \<in> fst ` set network \<Longrightarrow> s \<notin> set Q \<Longrightarrow> q \<in> set Q \<Longrightarrow> subscript t s \<le> subscript t q"
  shows "dijkstra_inv network this Q t"
  unfolding dijkstra_inv_def
proof (intro conjI allI impI)
  show "distinct Q" by (rule assms(1))
  show "set Q \<subseteq> fst ` set network" by (rule assms(2))
  show "insert this (fst ` set network) \<subseteq> fst ` set t" by (rule assms(3))
  show "subscript t this = 0" by (rule assms(4))
  show "subscript t v \<le> UINT32_MAX" for v by (rule assms(5))
  show "walk network this v (unat (subscript t v))" if "v \<in> fst ` set t" "subscript t v \<noteq> UINT32_MAX" for v
    using that by (rule assms(6))
  show "subscript t s \<noteq> UINT32_MAX" if "s \<in> fst ` set network" "s \<notin> set Q" for s
    using that by (rule assms(7))
  show "u \<in> fst ` set network"
    if "s \<in> fst ` set network" "s \<notin> set Q" "u \<in> set (connections_of network s)" for s u
    using assms(8) [OF that] by simp
  show "unat (subscript t u) \<le> Suc (unat (subscript t s))"
    if "s \<in> fst ` set network" "s \<notin> set Q" "u \<in> set (connections_of network s)" for s u
    using assms(8) [OF that] by simp
  show "subscript t s \<le> subscript t q" if "s \<in> fst ` set network" "s \<notin> set Q" "q \<in> set Q" for s q
    using that by (rule assms(9))
qed

lemma map_of_keys: "fst ` set t = {k. map_of t k \<noteq> None}"
  by (auto simp: map_of_eq_None_iff)

lemma dijkstra_inv_step:
  assumes inv: "dijkstra_inv network this (q # qs) t"
    and m: "m = min_element_from (DistanceSorter network t) q qs"
    and d: "subscript t m \<noteq> UINT32_MAX"
    and rel: "relax network (remove1 m (q # qs)) (subscript t m) (connections_of network m) t = Inr t'"
  shows "dijkstra_inv network this (remove1 m (q # qs)) t'"
proof -
  define Q where "Q = q # qs"
  define Q' where "Q' = remove1 m Q"
  define dm where "dm = subscript t m"
  note I = dijkstra_invD [OF inv [folded Q_def]]
  have mQ: "m \<in> set Q" unfolding m Q_def by (rule min_element_from_in)
  have dist: "distinct Q" by (rule I(1))
  have setQ': "set Q' = set Q - {m}" unfolding Q'_def using dist by simp
  have mV: "m \<in> fst ` set network" using I(2) mQ by blast
  have minle: "dm \<le> subscript t x" if "x \<in> set Q" for x
    using min_element_from_le [of q qs t network] that unfolding m dm_def Q_def by blast
  have dm_le: "dm \<le> UINT32_MAX" unfolding dm_def by (rule I(5))
  have dm_ne: "dm \<noteq> UINT32_MAX" using d by (simp add: dm_def)
  have un: "unat (dm + 1) = Suc (unat dm)" using dm_le by (rule unat_succ)
  have lt: "dm < dm + 1" using dm_le by (rule less_succ)
  have le1: "dm + 1 \<le> UINT32_MAX" using dm_le dm_ne by (rule succ_le)
  from relax_result [OF rel [folded Q_def Q'_def dm_def]]
  have conns: "\<And>c. c \<in> set (connections_of network m) \<Longrightarrow> c \<in> fst ` set network"
    and t': "\<And>v. map_of t' v = (if v \<in> set (connections_of network m) \<and> v \<in> set Q' \<and> dm + 1 < subscript t v
                            then Some (dm + 1) else map_of t v)"
    by blast+
  have s': "subscript t' v = (if v \<in> set (connections_of network m) \<and> v \<in> set Q' \<and> dm + 1 < subscript t v
                            then dm + 1 else subscript t v)" for v
    by (simp add: subscript_def t')
  have s'_le: "subscript t' v \<le> subscript t v" for v by (auto simp: s')
  have s'_out: "subscript t' v = subscript t v" if "v \<notin> set Q'" for v using that by (simp add: s')
  have keys: "fst ` set t \<subseteq> fst ` set t'" by (auto simp: map_of_keys t')
  have keys': "v \<in> fst ` set t' \<Longrightarrow> v \<in> fst ` set t \<or> (v \<in> set (connections_of network m) \<and> v \<in> set Q' \<and> dm + 1 < subscript t v)" for v
    by (auto simp: map_of_keys t' split: if_splits)
  have mkey: "m \<in> fst ` set t" using I(3) mV by blast
  have walk_m: "walk network this m (unat dm)" using I(6) [OF mkey] dm_ne unfolding dm_def by blast
  have settled_le: "subscript t s \<le> dm" if "s \<in> fst ` set network" "s \<notin> set Q'" for s
  proof (cases "s = m")
    case True
    then show ?thesis by (simp add: dm_def)
  next
    case False
    then have "s \<notin> set Q" using that setQ' by blast
    then show ?thesis using I(9) [OF that(1) _ mQ] unfolding dm_def by blast
  qed
  show ?thesis unfolding Q_def [symmetric] Q'_def [symmetric]
  proof (rule dijkstra_invI)
    show "distinct Q'" unfolding Q'_def using dist by simp
    show "set Q' \<subseteq> fst ` set network" using I(2) setQ' by blast
    show "insert this (fst ` set network) \<subseteq> fst ` set t'" using I(3) keys by blast
    show "subscript t' this = 0" using I(4) by (simp add: s')
    show "subscript t' v \<le> UINT32_MAX" for v using le1 I(5) [of v] by (simp add: s')
  next
    fix v assume v: "v \<in> fst ` set t'" "subscript t' v \<noteq> UINT32_MAX"
    show "walk network this v (unat (subscript t' v))"
    proof (cases "v \<in> set (connections_of network m) \<and> v \<in> set Q' \<and> dm + 1 < subscript t v")
      case True
      then have "subscript t' v = dm + 1" by (simp add: s')
      moreover have "walk network this v (Suc (unat dm))" using walk_m True by (blast intro: walk_snoc)
      ultimately show ?thesis by (simp add: un)
    next
      case False
      have eq: "subscript t' v = subscript t v" unfolding s' using False by (rule if_not_P)
      have "v \<in> fst ` set t" using keys' [OF v(1)] False by blast
      then show ?thesis using I(6) [of v] v(2) unfolding eq by blast
    qed
  next
    fix s assume s: "s \<in> fst ` set network" "s \<notin> set Q'"
    have eq: "subscript t' s = subscript t s" using s(2) by (rule s'_out)
    show "subscript t' s \<noteq> UINT32_MAX"
    proof (cases "s = m")
      case True
      then show ?thesis using dm_ne eq by (simp add: dm_def)
    next
      case False
      then have "s \<notin> set Q" using s setQ' by blast
      then show ?thesis using I(7) [OF s(1)] eq by simp
    qed
    fix u assume u: "u \<in> set (connections_of network s)"
    show "u \<in> fst ` set network \<and> unat (subscript t' u) \<le> Suc (unat (subscript t' s))"
    proof (cases "s = m")
      case True
      have sm: "subscript t' s = dm" using eq True by (simp add: dm_def)
      have um: "u \<in> set (connections_of network m)" using u True by simp
      have "unat (subscript t' u) \<le> Suc (unat dm)"
      proof (cases "u \<in> set Q'")
        case True
        then have "subscript t' u \<le> dm + 1" using um by (auto simp: s')
        then show ?thesis using un by (simp add: word_le_nat_alt)
      next
        case False
        then have "subscript t' u = subscript t u" by (rule s'_out)
        moreover have "subscript t u \<le> dm" using conns [OF um] False by (rule settled_le)
        ultimately show ?thesis by (simp add: word_le_nat_alt)
      qed
      then show ?thesis using sm conns [OF um] by simp
    next
      case False
      then have old: "s \<notin> set Q" using s setQ' by blast
      have "unat (subscript t' u) \<le> unat (subscript t u)"
        using s'_le [of u] by (simp add: word_le_nat_alt)
      then show ?thesis using I(8) [OF s(1) old u] unfolding eq by linarith
    qed
  next
    fix s x assume s: "s \<in> fst ` set network" "s \<notin> set Q'" and x: "x \<in> set Q'"
    have "subscript t' s = subscript t s" using s(2) by (rule s'_out)
    moreover have "subscript t s \<le> dm" using s by (rule settled_le)
    moreover have "dm \<le> subscript t' x"
    proof -
      have "x \<in> set Q" using x setQ' by blast
      then have "dm \<le> subscript t x" by (rule minle)
      moreover have "dm \<le> dm + 1" using lt by simp
      ultimately show ?thesis by (simp add: s')
    qed
    ultimately show "subscript t' s \<le> subscript t' x" by simp
  qed
qed


lemma while_Q_inv:
  "dijkstra_inv network this Q t \<Longrightarrow> while_Q network Q t = Inr t' \<Longrightarrow> dijkstra_inv network this [] t'"
proof (induction network Q t rule: while_Q.induct)
  case (1 network t)
  then show ?case by simp
next
  case (2 network q qs t)
  obtain Q1 t1 where body: "while_Q_body network q qs t = Inr (Q1, t1)"
    and rest: "while_Q network Q1 t1 = Inr t'"
    using "2.prems"(2) by (auto split: sum.splits)
  note B = while_Q_body_Inr [OF body]
  have "dijkstra_inv network this Q1 t1"
    unfolding B(1) using "2.prems"(1) refl B(2) B(3) [unfolded B(1)] by (rule dijkstra_inv_step)
  then show ?case using rest by (rule "2.IH" [OF body refl])
qed

lemma init_Q_result:
  "init_Q network t0 Q0 = Inr (t, Q) \<Longrightarrow> distinct Q0 \<Longrightarrow>
   Q = Q0 @ map fst network \<and> distinct Q
   \<and> (\<forall>v. map_of t v = (if v \<in> fst ` set network then Some UINT32_MAX else map_of t0 v))"
proof (induction network arbitrary: t0 Q0)
  case Nil
  then show ?case by simp
next
  case (Cons kv network)
  obtain l x where kv: "kv = (l, x)" by (cases kv)
  from Cons.prems(1) have l: "l \<notin> set Q0"
    and rest: "init_Q network (AList.update l UINT32_MAX t0) (Q0 @ [l]) = Inr (t, Q)"
    by (auto simp: kv Let_def split: if_splits)
  have "distinct (Q0 @ [l])" using l Cons.prems(2) by simp
  note IH = Cons.IH [OF rest this]
  have Q: "Q = (Q0 @ [l]) @ map fst network" by (rule IH [THEN conjunct1])
  have dQ: "distinct Q" by (rule IH [THEN conjunct2, THEN conjunct1])
  have mp: "map_of t v = (if v \<in> fst ` set network then Some UINT32_MAX
                         else map_of (AList.update l UINT32_MAX t0) v)" for v
    by (rule IH [THEN conjunct2, THEN conjunct2, THEN spec])
  have "Q = Q0 @ map fst (kv # network)" by (simp add: Q kv)
  moreover have "map_of t v = (if v \<in> fst ` set (kv # network) then Some UINT32_MAX else map_of t0 v)" for v
    by (simp add: mp kv update_conv')
  ultimately show ?case using dQ by blast
qed

lemma walk_last:
  "walk network a c (Suc n) \<Longrightarrow> \<exists>b. walk network a b n \<and> c \<in> set (connections_of network b)"
proof (induction n arbitrary: a)
  case 0
  then show ?case by auto
next
  case (Suc n)
  from Suc.prems obtain d where d: "d \<in> set (connections_of network a)" "walk network d c (Suc n)"
    using walk.simps(2) [of network a c "Suc n"] by blast
  from Suc.IH [OF d(2)] obtain b where b: "walk network d b n" "c \<in> set (connections_of network b)"
    by blast
  have "walk network a b (Suc n)" using d(1) b(1) by auto
  then show ?case using b(2) by blast
qed

lemma walk_from_outside:
  "walk network a b n \<Longrightarrow> a \<notin> fst ` set network \<Longrightarrow> b = a \<and> n = 0"
  by (cases n) (auto simp: connections_of_def map_of_eq_None_iff [THEN iffD2])

lemma calculate_inv:
  assumes "calculateDistanceToOtherValves network this = Inr t"
  shows "dijkstra_inv network this [] t"
proof -
  from assms obtain t0 Q where init: "init_Q network [] [] = Inr (t0, Q)"
    and loop: "while_Q network Q (AList.update this 0 t0) = Inr t"
    by (auto simp: calculateDistanceToOtherValves_def split: sum.splits)
  from init_Q_result [OF init] have Q: "Q = map fst network" and dist: "distinct Q"
    and t0: "\<And>v. map_of t0 v = (if v \<in> fst ` set network then Some UINT32_MAX else None)"
    by auto
  let ?t = "AList.update this 0 t0"
  have m: "map_of ?t v = (if v = this then Some 0 else if v \<in> fst ` set network then Some UINT32_MAX else None)" for v
    by (simp add: update_conv' t0)
  have s: "subscript ?t v = (if v = this then 0 else if v \<in> fst ` set network then UINT32_MAX else 0)" for v
    by (simp add: subscript_def m)
  have keys: "fst ` set ?t = insert this (fst ` set network)"
    by (auto simp: map_of_keys m)
  have "dijkstra_inv network this Q ?t"
  proof (rule dijkstra_invI)
    show "distinct Q" by (rule dist)
    show "set Q \<subseteq> fst ` set network" by (simp add: Q)
    show "insert this (fst ` set network) \<subseteq> fst ` set ?t" by (simp only: keys subset_refl)
    show "subscript ?t this = 0" by (simp add: s)
    show "subscript ?t v \<le> UINT32_MAX" for v by (simp add: s)
    show "walk network this v (unat (subscript ?t v))"
      if "v \<in> fst ` set ?t" "subscript ?t v \<noteq> UINT32_MAX" for v
    proof -
      have "v = this" using that unfolding keys by (auto simp: s split: if_splits)
      then show ?thesis by (simp add: s)
    qed
  qed (simp_all add: Q)
  then show ?thesis using loop by (rule while_Q_inv)
qed

lemma calculate_correct:
  assumes calc: "calculateDistanceToOtherValves network this = Inr t"
    and b: "b \<in> fst ` set network"
  shows "map_of t b = Some (subscript t b)"
    and "subscript t b \<noteq> UINT32_MAX"
    and "walk network this b (unat (subscript t b))"
    and "\<And>n. walk network this b n \<Longrightarrow> unat (subscript t b) \<le> n"
proof -
  note I = dijkstra_invD [OF calculate_inv [OF calc]]
  have key: "b \<in> fst ` set t" using I(3) b by blast
  then show "map_of t b = Some (subscript t b)"
    by (auto simp: subscript_def map_of_keys)
  show ne: "subscript t b \<noteq> UINT32_MAX" using I(7) [OF b] by simp
  show w: "walk network this b (unat (subscript t b))" using key ne by (rule I(6))
  have this_in: "this \<in> fst ` set network"
  proof (rule ccontr)
    assume "this \<notin> fst ` set network"
    with w have "b = this" by (blast dest: walk_from_outside)
    with b \<open>this \<notin> fst ` set network\<close> show False by simp
  qed
  have all: "walk network this c n \<Longrightarrow> c \<in> fst ` set network \<and> unat (subscript t c) \<le> n" for c n
  proof (induction n arbitrary: c)
    case 0
    then show ?case using this_in I(4) by simp
  next
    case (Suc n)
    from walk_last [OF Suc.prems] obtain d where d: "walk network this d n" "c \<in> set (connections_of network d)"
      by blast
    from Suc.IH [OF d(1)] have dV: "d \<in> fst ` set network" and le: "unat (subscript t d) \<le> n" by simp_all
    from I(8) [OF dV _ d(2)] have "c \<in> fst ` set network" "unat (subscript t c) \<le> Suc (unat (subscript t d))"
      by simp_all
    then show ?case using le by simp
  qed
  show "unat (subscript t b) \<le> n" if "walk network this b n" for n
    using all [OF that] by simp
qed


lemma connections_of_outside: "a \<notin> fst ` set network \<Longrightarrow> connections_of network a = []"
  by (simp add: connections_of_def map_of_eq_None_iff [THEN iffD2])

lemma two_way_walk:
  assumes "two_way network"
  shows "walk network a b n \<Longrightarrow> walk network b a n"
proof (induction n arbitrary: a)
  case 0
  then show ?case by simp
next
  case (Suc n)
  from Suc.prems obtain c where c: "c \<in> set (connections_of network a)" "walk network c b n"
    by auto
  have "a \<in> fst ` set network"
  proof (rule ccontr)
    assume "a \<notin> fst ` set network"
    then have "connections_of network a = []" by (rule connections_of_outside)
    with c(1) show False by simp
  qed
  then have "a \<in> set (connections_of network c)" using assms c(1) by (auto simp: two_way_def)
  moreover have "walk network b c n" using c(2) by (rule Suc.IH)
  ultimately show ?case by (blast intro: walk_snoc)
qed

text \<open>
  Claim C6. The table that \<^verbatim>\<open>calculateDistanceToOtherValves\<close> computes for a valve gives the
  valve itself the distance 0.
\<close>

theorem calculate_self:
  assumes "calculateDistanceToOtherValves network this = Inr t"
  shows "map_of t this = Some 0"
proof -
  note I = dijkstra_invD [OF calculate_inv [OF assms]]
  have "this \<in> fst ` set t" using I(3) by blast
  then show ?thesis using I(4) by (auto simp: subscript_def map_of_keys)
qed

theorem calculate_self_witness:
  "calculateDistanceToOtherValves two_valves ''AA'' = Inr [(''AA'', 0), (''BB'', 1)]
   \<and> map_of [(''AA'', 0), (''BB'', 1 :: size_t)] ''AA'' = Some 0"
proof -
  have h: "calculateDistanceToOtherValves two_valves ''AA'' = Inr [(''AA'', 0), (''BB'', 1)]"
    by code_simp
  show ?thesis using h calculate_self [OF h] by simp
qed

text \<open>
  Claim C4, as stated: a valve that cannot be reached from the source is left out of the
  source's table. It fails: for two valves without a tunnel the computation of the table of
  \<^verbatim>\<open>AA\<close> enters \<^verbatim>\<open>BB\<close> with \<^verbatim>\<open>UINT32_MAX\<close>, takes it from the queue with that distance and
  throws; no table is returned, and \<^verbatim>\<open>parse\<close> fails.
\<close>

theorem calculate_unreachable:
  "parse [(''AA'', 0, []), (''BB'', 0, [])] = Inl (infinite_distance ''BB'')
   \<and> read_lines [(''AA'', 0, []), (''BB'', 0, [])] = apart
   \<and> connections_of apart ''AA'' = []
   \<and> init_Q apart [] [] = Inr ([(''AA'', UINT32_MAX), (''BB'', UINT32_MAX)], [''AA'', ''BB''])
   \<and> calculateDistanceToOtherValves apart ''AA'' = Inl (infinite_distance ''BB'')"
  by code_simp

text \<open>
  Claim C4, amended: when the computation for a source returns a table, every valve of the
  network is in it with its minimum hop count from the source, which is never the initial
  \<^verbatim>\<open>UINT32_MAX\<close>; and when a valve of the network cannot be reached from the source, the
  computation returns no table but fails with an error.
\<close>

theorem calculate_table:
  assumes "b \<in> fst ` set network"
  shows "(calculateDistanceToOtherValves network this = Inr t \<longrightarrow>
            (\<exists>k. map_of t b = Some k \<and> k \<noteq> UINT32_MAX
               \<and> walk network this b (unat k) \<and> (\<forall>n. walk network this b n \<longrightarrow> unat k \<le> n)))
       \<and> ((\<forall>n. \<not> walk network this b n) \<longrightarrow>
            (\<exists>e. calculateDistanceToOtherValves network this = Inl e))"
proof (intro conjI impI)
  assume "calculateDistanceToOtherValves network this = Inr t"
  from calculate_correct [OF this assms]
  show "\<exists>k. map_of t b = Some k \<and> k \<noteq> UINT32_MAX
      \<and> walk network this b (unat k) \<and> (\<forall>n. walk network this b n \<longrightarrow> unat k \<le> n)"
    by blast
next
  assume no: "\<forall>n. \<not> walk network this b n"
  show "\<exists>e. calculateDistanceToOtherValves network this = Inl e"
  proof (cases "calculateDistanceToOtherValves network this")
    case (Inl e)
    then show ?thesis by blast
  next
    case (Inr t')
    from calculate_correct(3) [OF this assms] no show ?thesis by blast
  qed
qed

theorem calculate_table_witness:
  "''BB'' \<in> fst ` set two_valves
   \<and> calculateDistanceToOtherValves two_valves ''AA'' = Inr [(''AA'', 0), (''BB'', 1)]
   \<and> (\<exists>k. map_of [(''AA'', 0), (''BB'', 1 :: size_t)] ''BB'' = Some k \<and> k \<noteq> UINT32_MAX
      \<and> walk two_valves ''AA'' ''BB'' (unat k) \<and> (\<forall>n. walk two_valves ''AA'' ''BB'' n \<longrightarrow> unat k \<le> n))"
proof -
  have h: "calculateDistanceToOtherValves two_valves ''AA'' = Inr [(''AA'', 0), (''BB'', 1)]"
    by code_simp
  have b: "''BB'' \<in> fst ` set two_valves" by (simp add: two_valves_def)
  show ?thesis
    using h b calculate_table [OF b, of "''AA''" "[(''AA'', 0), (''BB'', 1)]", THEN conjunct1] by simp
qed

text \<open>
  Claim C7, as stated: the distances are symmetric for every network. It fails on a ring of
  one-way tunnels \<^verbatim>\<open>AA -> BB -> CC -> AA\<close>: the distance from \<^verbatim>\<open>AA\<close> to \<^verbatim>\<open>CC\<close> is 2, the
  distance from \<^verbatim>\<open>CC\<close> to \<^verbatim>\<open>AA\<close> is 1.
\<close>

theorem distance_one_way:
  "calculateDistanceToOtherValves one_way_ring ''AA'' = Inr [(''AA'', 0), (''BB'', 1), (''CC'', 2)]
   \<and> calculateDistanceToOtherValves one_way_ring ''CC'' = Inr [(''AA'', 1), (''BB'', 2), (''CC'', 0)]
   \<and> map_of [(''AA'', 0), (''BB'', 1), (''CC'', 2 :: size_t)] ''CC'' = Some 2
   \<and> map_of [(''AA'', 1), (''BB'', 2), (''CC'', 0 :: size_t)] ''AA'' = Some 1"
  by code_simp

text \<open>
  Claim C7, amended: in a network whose tunnels can all be taken in both directions, the
  computed distance from \<open>a\<close> to \<open>b\<close> equals the computed distance from \<open>b\<close> to \<open>a\<close>, for all
  valves \<open>a\<close> and \<open>b\<close> of the network whose tables are computed.
\<close>

theorem distance_symmetric:
  assumes "two_way network"
    and "a \<in> fst ` set network" and "b \<in> fst ` set network"
    and "calculateDistanceToOtherValves network a = Inr ta"
    and "calculateDistanceToOtherValves network b = Inr tb"
  shows "map_of ta b = map_of tb a"
proof -
  note A = calculate_correct [OF assms(4) assms(3)]
  note B = calculate_correct [OF assms(5) assms(2)]
  have "walk network b a (unat (subscript ta b))" using assms(1) A(3) by (rule two_way_walk)
  then have 1: "unat (subscript tb a) \<le> unat (subscript ta b)" by (rule B(4))
  have "walk network a b (unat (subscript tb a))" using assms(1) B(3) by (rule two_way_walk)
  then have 2: "unat (subscript ta b) \<le> unat (subscript tb a)" by (rule A(4))
  from 1 2 have "subscript ta b = subscript tb a" by (simp add: word_unat_eq_iff)
  then show ?thesis using A(1) B(1) by simp
qed

theorem distance_symmetric_witness:
  "two_way two_valves \<and> ''AA'' \<in> fst ` set two_valves \<and> ''BB'' \<in> fst ` set two_valves
   \<and> calculateDistanceToOtherValves two_valves ''AA'' = Inr [(''AA'', 0), (''BB'', 1)]
   \<and> calculateDistanceToOtherValves two_valves ''BB'' = Inr [(''AA'', 1), (''BB'', 0)]
   \<and> map_of [(''AA'', 0), (''BB'', 1 :: size_t)] ''BB'' = map_of [(''AA'', 1), (''BB'', 0)] ''AA''"
proof -
  have h1: "two_way two_valves" by code_simp
  have h2: "''AA'' \<in> fst ` set two_valves" and h3: "''BB'' \<in> fst ` set two_valves"
    by (simp_all add: two_valves_def)
  have h4: "calculateDistanceToOtherValves two_valves ''AA'' = Inr [(''AA'', 0), (''BB'', 1)]"
    by code_simp
  have h5: "calculateDistanceToOtherValves two_valves ''BB'' = Inr [(''AA'', 1), (''BB'', 0)]"
    by code_simp
  show ?thesis using h1 h2 h3 h4 h5 distance_symmetric [OF h1 h2 h3 h4 h5] by simp
qed

section \<open>The loop over the input files\<close>

lemma main_loop_append:
  "main_loop (pre @ rest) out =
     (case main_loop pre out of (out', None) \<Rightarrow> main_loop rest out' | (out', Some ex) \<Rightarrow> (out', Some ex))"
  by (induction pre arbitrary: out) (auto split: sum.splits)

text \<open>
  Claim C9, as stated: after a fatal error in one input file the program goes on to the next
  file. It fails: the first file has no valve \<^verbatim>\<open>AA\<close>, and the answer 140 of the second file
  is never printed; the program reports the error and exits with status 1.
\<close>

theorem main_gives_up:
  "main [[(''BB'', 5, [])], [(''AA'', 0, [''BB'']), (''BB'', 5, [''AA''])]] = ([], [out_of_range ''AA''], 1)
   \<and> main [[(''AA'', 0, [''BB'']), (''BB'', 5, [''AA''])]] = ([140], [], 0)"
  by code_simp

text \<open>
  Claim C9, amended: when the files before it were processed and processing a file raises a
  fatal error (in \<^verbatim>\<open>parse\<close> or in \<^verbatim>\<open>part1\<close>), the error is reported and the program exits with
  status 1, having printed the answers of the files before it only: no later file is
  processed.
\<close>

theorem main_stops:
  assumes "main_loop pre [] = (out, None)"
    and "parse input = Inl ex \<or> (\<exists>network. parse input = Inr network \<and> part1 network 30 = Inl ex)"
  shows "main (pre @ input # rest) = (out, [ex], 1)"
  using assms by (auto simp: main_def main_loop_append)

theorem main_stops_witness:
  "main_loop [[(''AA'', 0, [''BB'']), (''BB'', 5, [''AA''])]] [] = ([140], None)
   \<and> parse [(''BB'', 5, [])] = Inr [(''BB'', \<lparr>flowRate = 5, connections = [], distances = [(''BB'', 0)]\<rparr>)]
   \<and> part1 [(''BB'', \<lparr>flowRate = 5, connections = [], distances = [(''BB'', 0)]\<rparr>)] 30 = Inl (out_of_range ''AA'')
   \<and> main ([[(''AA'', 0, [''BB'']), (''BB'', 5, [''AA''])]] @ [(''BB'', 5, [])] # [[(''AA'', 0, [''BB'']), (''BB'', 5, [''AA''])]])
       = ([140], [out_of_range ''AA''], 1)"
proof -
  have h1: "main_loop [[(''AA'', 0, [''BB'']), (''BB'', 5, [''AA''])]] [] = ([140], None)"
    by code_simp
  have h2: "parse [(''BB'', 5, [])] = Inr [(''BB'', \<lparr>flowRate = 5, connections = [], distances = [(''BB'', 0)]\<rparr>)]"
    by code_simp
  have h3: "part1 [(''BB'', \<lparr>flowRate = 5, connections = [], distances = [(''BB'', 0)]\<rparr>)] 30 = Inl (out_of_range ''AA'')"
    by code_simp
  from h2 h3 have h: "parse [(''BB'', 5, [])] = Inl (out_of_range ''AA'')
      \<or> (\<exists>network. parse [(''BB'', 5, [])] = Inr network \<and> part1 network 30 = Inl (out_of_range ''AA''))"
    by simp
  show ?thesis using h1 h2 h3 main_stops [OF h1 h] by simp
qed

end
